theory Spec2Isabelle
  imports Complex_Main "HOL-Library.Sublist" "HOL-Library.Char_ord"
    "HOL-Library.List_Lexorder" "HOL-Library.Multiset"
begin

section \<open>Python values used by \<open>npc_ephys.openephys\<close>\<close>

text \<open>
  Exceptions are values. Only the class of an exception is kept, and the message where a
  caller can tell two failures of one class apart by it (\<open>AssertionError\<close>).
\<close>

datatype error =
    ValueError
  | FileNotFoundError
  | IsADirectoryError
  | AssertionError string
  | StopIteration
  | RuntimeError
  | KeyError
  | IndexError
  | OtherError string

definition and_then :: "error + 'a \<Rightarrow> ('a \<Rightarrow> error + 'b) \<Rightarrow> error + 'b" where
  "and_then r f = (case r of Inl e \<Rightarrow> Inl e | Inr v \<Rightarrow> f v)"

text \<open>
  A byte is a \<open>char\<close> (eight bits); \<open>bytes\<close> and the text decoded from them are both
  \<open>string\<close>. Decoding is the identity: the texts read here are ASCII.
\<close>

type_synonym byte = char

fun from_bytes_little :: "byte list \<Rightarrow> nat" where
  "from_bytes_little [] = 0"
| "from_bytes_little (b # bs) = of_char b + 256 * from_bytes_little bs"

fun to_bytes_little :: "nat \<Rightarrow> nat \<Rightarrow> byte list" where
  "to_bytes_little 0 n = []"
| "to_bytes_little (Suc k) n = char_of (n mod 256) # to_bytes_little k (n div 256)"

definition whitespace :: "char list" where
  "whitespace = [CHR 0x09, CHR 0x0A, CHR 0x0B, CHR 0x0C, CHR 0x0D,
                 CHR 0x1C, CHR 0x1D, CHR 0x1E, CHR 0x1F, CHR '' '']"

definition strip_chars :: "char list \<Rightarrow> string \<Rightarrow> string" where
  "strip_chars cs s =
     rev (dropWhile (\<lambda>c. c \<in> set cs) (rev (dropWhile (\<lambda>c. c \<in> set cs) s)))"

definition strip :: "string \<Rightarrow> string" where
  "strip s = strip_chars whitespace s"

section \<open>Storage\<close>

text \<open>
  A path is the list of its components. The storage behind \<open>upath.UPath\<close> is a finite
  listing of paths, each a folder or a file with its bytes, in the order in which the
  storage enumerates them. \<open>rglob\<close> and \<open>iterdir\<close> enumerate in that order.
\<close>

type_synonym path = "string list"

datatype entry = File "byte list" | Folder

type_synonym filesystem = "(path \<times> entry) list"


definition is_dir :: "filesystem \<Rightarrow> path \<Rightarrow> bool" where
  "is_dir fs p = (case map_of fs p of Some Folder \<Rightarrow> True | _ \<Rightarrow> False)"

definition is_file :: "filesystem \<Rightarrow> path \<Rightarrow> bool" where
  "is_file fs p = (case map_of fs p of Some (File _) \<Rightarrow> True | _ \<Rightarrow> False)"

definition read_all :: "filesystem \<Rightarrow> path \<Rightarrow> error + byte list" where
  "read_all fs p =
     (case map_of fs p of
        None \<Rightarrow> Inl FileNotFoundError
      | Some Folder \<Rightarrow> Inl IsADirectoryError
      | Some (File bs) \<Rightarrow> Inr bs)"

text \<open>
  \<open>path.fs.read_bytes(path, start=a, end=b)\<close>: the bytes \<open>[a:b]\<close> of the object. Every
  call below has \<open>a \<le> b\<close> when the element range is well formed.
\<close>

definition read_bytes :: "filesystem \<Rightarrow> path \<Rightarrow> nat \<Rightarrow> nat \<Rightarrow> error + byte list" where
  "read_bytes fs p start stop =
     and_then (read_all fs p) (\<lambda>bs. Inr (take (stop - start) (drop start bs)))"

section \<open>Partial reads of an array file\<close>

text \<open>
  What NumPy and Python's \<open>eval\<close> contribute is a parameter: the dictionary that
  \<open>eval\<close> builds from the header text, the width of an element of a given \<open>descr\<close>,
  the value an element's bytes stand for, and \<open>np.load\<close> of a whole file.
\<close>

record npy_header =
  shape :: "nat list"
  descr :: string
  fortran_order :: bool

record 'v numpy =
  eval_header :: "string \<Rightarrow> error + npy_header"
  itemsize :: "string \<Rightarrow> error + nat"
  decode :: "string \<Rightarrow> byte list \<Rightarrow> 'v"
  load :: "byte list \<Rightarrow> error + 'v list"

function chunks :: "nat \<Rightarrow> 'a list \<Rightarrow> 'a list list" where
  "chunks k xs = (if k = 0 \<or> xs = [] then [] else take k xs # chunks k (drop k xs))"
  by pat_completeness auto
termination
  by (relation "measure (\<lambda>(k, xs). length xs)") auto

declare chunks.simps [simp del]

text \<open>
  \<open>np.frombuffer(buf, dtype)\<close>: the buffer cut into elements. It raises \<open>ValueError\<close>
  when the buffer is not a whole number of elements.
\<close>

definition frombuffer :: "'v numpy \<Rightarrow> byte list \<Rightarrow> string \<Rightarrow> error + 'v list" where
  "frombuffer np buf dtype =
     and_then (itemsize np dtype) (\<lambda>k.
       if k = 0 \<or> length buf mod k \<noteq> 0 then Inl ValueError
       else Inr (map (decode np dtype) (chunks k buf)))"

datatype range_arg = Index nat | Slice nat nat

fun range_start :: "range_arg \<Rightarrow> nat" where
  "range_start (Index i) = i"
| "range_start (Slice i j) = i"

fun range_stop :: "range_arg \<Rightarrow> nat" where
  "range_stop (Index i) = i + 1"
| "range_stop (Slice i j) = j"

definition read_array_range_from_npy ::
  "'v numpy \<Rightarrow> filesystem \<Rightarrow> path \<Rightarrow> range_arg \<Rightarrow> error + 'v list" where
  "read_array_range_from_npy np fs path rng =
     and_then (read_bytes fs path 6 7) (\<lambda>b.
       let ver_major = from_bytes_little b;
           header_len_stop = (if ver_major = 1 then 10 else 12)
       in and_then (read_bytes fs path 8 header_len_stop) (\<lambda>hl.
         let header_len = from_bytes_little hl;
             array_start = header_len_stop + header_len
         in and_then (read_bytes fs path header_len_stop array_start) (\<lambda>header_bytes.
           and_then (eval_header np (strip (strip_chars [CHR 0x0A] header_bytes))) (\<lambda>header.
             if length (shape header) \<noteq> 1
             then Inl (AssertionError ''Currently supporting 1-D array only'')
             else
               let dtype = descr header in
               and_then (itemsize np dtype) (\<lambda>num_bytes_per_value.
                 and_then
                   (read_bytes fs path
                      (array_start + range_start rng * num_bytes_per_value)
                      (array_start + range_stop rng * num_bytes_per_value))
                   (\<lambda>buf. frombuffer np buf dtype))))))"

text \<open>
  The container as the format documents it: six bytes of magic, the major and the minor
  version, the length of the header on two bytes (major version 1) or four, little-endian,
  the header text, and the elements.
\<close>

definition magic :: "byte list" where
  "magic = CHR 0x93 # ''NUMPY''"

definition npy_container :: "nat \<Rightarrow> nat \<Rightarrow> string \<Rightarrow> byte list \<Rightarrow> byte list" where
  "npy_container major minor hdr dat =
     magic @ [char_of major, char_of minor]
     @ to_bytes_little (if major = 1 then 2 else 4) (length hdr) @ hdr @ dat"

section \<open>Strings and paths\<close>

text \<open>\<open>str.lower\<close>, on ASCII letters; other characters are left as they are.\<close>

definition lower_char :: "char \<Rightarrow> char" where
  "lower_char c =
     (if CHR ''A'' \<le> c \<and> c \<le> CHR ''Z'' then char_of (of_char c + (32::nat)) else c)"

definition lower :: "string \<Rightarrow> string" where
  "lower s = map lower_char s"

text \<open>\<open>sub in s\<close> on strings: \<open>sub\<close> occurs in \<open>s\<close> as a contiguous run.\<close>

fun contains :: "string \<Rightarrow> string \<Rightarrow> bool" where
  "contains [] sub = (sub = [])"
| "contains (c # cs) sub = (prefix sub (c # cs) \<or> contains cs sub)"

fun join :: "string \<Rightarrow> string list \<Rightarrow> string" where
  "join sep [] = []"
| "join sep [x] = x"
| "join sep (x # y # ys) = x @ sep @ join sep (y # ys)"

definition as_posix :: "path \<Rightarrow> string" where
  "as_posix p = join ''/'' p"

definition parent :: "path \<Rightarrow> path" where
  "parent p = butlast p"

definition path_name :: "path \<Rightarrow> string" where
  "path_name p = (if p = [] then [] else last p)"

text \<open>\<open>path.parents\<close>: the proper ancestors, the nearest first.\<close>

definition parents :: "path \<Rightarrow> path list" where
  "parents p = rev (butlast (prefixes p))"

text \<open>
  \<open>path / s\<close>, for a single component \<open>s\<close>: the names joined below hold no \<open>/\<close>.
\<close>

definition child :: "path \<Rightarrow> string \<Rightarrow> path" where
  "child p s = p @ [s]"

text \<open>\<open>path.suffix\<close>: the last component from its last dot on, when that dot is neither
  its first nor its last character.\<close>

definition suffix_of :: "path \<Rightarrow> string" where
  "suffix_of p =
     (let n = path_name p;
          ext = rev (takeWhile (\<lambda>c. c \<noteq> CHR ''.'') (rev n))
      in if length ext = length n \<or> ext = [] \<or> length ext + 1 = length n then []
         else CHR ''.'' # ext)"

definition relative_to :: "path \<Rightarrow> path \<Rightarrow> error + path" where
  "relative_to p other =
     (if prefix other p then Inr (drop (length other) p) else Inl ValueError)"

text \<open>A name against a pattern in which \<open>*\<close> stands for any run of characters.\<close>

fun glob_match :: "string \<Rightarrow> string \<Rightarrow> bool" where
  "glob_match [] [] = True"
| "glob_match [] (d # ds) = False"
| "glob_match (c # cs) [] = (c = CHR ''*'' \<and> glob_match cs [])"
| "glob_match (c # cs) (d # ds) =
     (if c = CHR ''*'' then glob_match cs (d # ds) \<or> glob_match (c # cs) ds
      else c = d \<and> glob_match cs ds)"

definition rglob :: "filesystem \<Rightarrow> path \<Rightarrow> string \<Rightarrow> path list" where
  "rglob fs p pat =
     (if is_dir fs p
      then filter (\<lambda>q. strict_prefix p q \<and> glob_match pat (path_name q)) (map fst fs)
      else [])"



text \<open>\<open>npc_io.get_size\<close>: the bytes of every file at or under the path.\<close>

definition get_size :: "filesystem \<Rightarrow> path \<Rightarrow> nat" where
  "get_size fs p =
     sum_list (map (\<lambda>(q, e). case e of File bs \<Rightarrow> length bs | Folder \<Rightarrow> 0)
                   (filter (\<lambda>(q, e). prefix p q) fs))"

section \<open>Generators\<close>

text \<open>
  What a generator gives its consumer: the values it yields, in order, and the exception
  that ends it, if one does. A consumer that stops early sees a prefix of the values.
\<close>

type_synonym 'a generated = "'a list \<times> error option"

fun for_each :: "'a list \<Rightarrow> ('a \<Rightarrow> 'b generated) \<Rightarrow> 'b generated" where
  "for_each [] body = ([], None)"
| "for_each (x # xs) body =
     (case body x of
        (ys, Some e) \<Rightarrow> (ys, Some e)
      | (ys, None) \<Rightarrow> (case for_each xs body of (zs, r) \<Rightarrow> (ys @ zs, r)))"

text \<open>\<open>next(g)\<close> on a fresh generator.\<close>

definition next_of :: "'a generated \<Rightarrow> error + 'a" where
  "next_of g =
     (case g of
        (y # ys, r) \<Rightarrow> Inr y
      | ([], Some e) \<Rightarrow> Inl e
      | ([], None) \<Rightarrow> Inl StopIteration)"

section \<open>Recording folders\<close>

definition py_max :: "nat list \<Rightarrow> error + nat" where
  "py_max xs = (case xs of [] \<Rightarrow> Inl ValueError | y # ys \<Rightarrow> Inr (fold max ys y))"

fun index :: "'a list \<Rightarrow> 'a \<Rightarrow> error + nat" where
  "index [] v = Inl ValueError"
| "index (x # xs) v = (if x = v then Inr 0 else and_then (index xs v) (\<lambda>i. Inr (Suc i)))"

definition get_single_oebin_path :: "filesystem \<Rightarrow> path \<Rightarrow> error + path" where
  "get_single_oebin_path fs path =
     (if \<not> is_dir fs path then Inl ValueError
      else
        let oebin_paths = rglob fs path ''structure*.oebin'' in
        if oebin_paths = [] then Inl FileNotFoundError
        else if length oebin_paths = 1 then Inr (oebin_paths ! 0)
        else
          let oebin_parents = map parent oebin_paths;
              dir_sizes = map (get_size fs) oebin_parents
          in and_then (py_max dir_sizes) (\<lambda>m.
               and_then (index dir_sizes m) (\<lambda>i. Inr (oebin_paths ! i))))"

text \<open>
  \<open>tuple(set(all_oebin_paths) - {single})\<close>: the order of a tuple built from a set is
  not fixed by Python; the model lists the paths in the order of the enumeration, and
  nothing below depends on it.
\<close>

definition get_superfluous_oebin_paths :: "filesystem \<Rightarrow> path \<Rightarrow> error + path list" where
  "get_superfluous_oebin_paths fs path =
     (let all_oebin_paths = rglob fs path ''structure*.oebin'' in
      if length all_oebin_paths = 1 then Inr []
      else and_then (get_single_oebin_path fs path) (\<lambda>single.
             Inr (filter (\<lambda>p. p \<noteq> single) (remdups all_oebin_paths))))"

definition get_filtered_ephys_paths_relative_to_record_node_parents ::
  "filesystem \<Rightarrow> path \<Rightarrow> (path \<times> path) generated" where
  "get_filtered_ephys_paths_relative_to_record_node_parents fs toplevel_ephys_path =
     for_each (rglob fs toplevel_ephys_path ''Record Node*'') (\<lambda>record_node.
       case get_superfluous_oebin_paths fs record_node of
         Inl e \<Rightarrow> ([], Some e)
       | Inr superfluous \<Rightarrow>
           let superfluous_recording_dirs = map parent superfluous in
           for_each (rglob fs record_node ''*'') (\<lambda>abs_path.
             let is_superfluous_path =
                   list_ex (\<lambda>d. d \<in> set (parents abs_path)) superfluous_recording_dirs
             in if is_superfluous_path then ([], None)
                else (case relative_to abs_path (parent record_node) of
                        Inl e \<Rightarrow> ([], Some e)
                      | Inr rel \<Rightarrow> ([(abs_path, rel)], None))))"

definition get_ephys_root :: "path \<Rightarrow> error + path" where
  "get_ephys_root path =
     (if \<not> contains (as_posix path) ''Record Node'' then Inl ValueError
      else (case filter (\<lambda>p. contains (lower (path_name p)) (lower ''Record Node'')) (parents path) of
              [] \<Rightarrow> Inl StopIteration
            | p # _ \<Rightarrow> Inr (parent p)))"

fun collect_roots :: "path list \<Rightarrow> path list \<Rightarrow> error + path list" where
  "collect_roots [] subfolders = Inr subfolders"
| "collect_roots (f # rest) subfolders =
     (if list_ex (\<lambda>k. contains (lower (as_posix f)) k) [''sorted'', ''extracted'', ''curated'']
      then collect_roots rest subfolders
      else and_then (get_ephys_root f) (\<lambda>r. collect_roots rest (List.insert r subfolders)))"

text \<open>
  \<open>min_size_gb\<close> is an \<open>int\<close>, a \<open>float\<close> or \<open>None\<close>. The product with \<open>1024**3\<close>, a
  power of two, is exact on floats, and Python compares an \<open>int\<close> with a \<open>float\<close>
  exactly: the threshold is a rational.
\<close>

definition get_raw_ephys_subfolders ::
  "filesystem \<Rightarrow> path \<Rightarrow> rat option \<Rightarrow> error + path list" where
  "get_raw_ephys_subfolders fs path min_size_gb =
     and_then (collect_roots (rglob fs path ''continuous.dat'') []) (\<lambda>subfolders.
       let subfolders' =
             (case min_size_gb of
                None \<Rightarrow> subfolders
              | Some g \<Rightarrow> filter (\<lambda>d. of_nat (get_size fs d) < g * 1024 ^ 3) subfolders)
       in Inr (sort_key as_posix subfolders'))"

section \<open>The acquisition log\<close>

text \<open>
  \<open>s.split(sep)\<close> for a separator that is not empty: the parts between the occurrences
  of \<open>sep\<close>, found from left to right. The separators below are constants.
\<close>

function py_split :: "string \<Rightarrow> string \<Rightarrow> string list" where
  "py_split sep [] = [[]]"
| "py_split sep (c # cs) =
     (if sep \<noteq> [] \<and> prefix sep (c # cs)
      then [] # py_split sep (drop (length sep) (c # cs))
      else (case py_split sep cs of [] \<Rightarrow> [[c]] | p # ps \<Rightarrow> (c # p) # ps))"
  by pat_completeness auto
termination
  by (relation "measure (\<lambda>(sep, s). length s)") auto








text \<open>A \<open>dict\<close>: keys in the order of their first insertion, a later value replaces.\<close>

type_synonym ('k, 'v) dict = "('k \<times> 'v) list"

definition dict_get :: "('k, 'v) dict \<Rightarrow> 'k \<Rightarrow> 'v option" where
  "dict_get d k = map_of d k"

fun dict_set :: "('k, 'v) dict \<Rightarrow> 'k \<Rightarrow> 'v \<Rightarrow> ('k, 'v) dict" where
  "dict_set [] k v = [(k, v)]"
| "dict_set ((k', v') # d) k v = (if k' = k then (k, v) # d else (k', v') # dict_set d k v)"

record sync_message =
  start :: int
  rate :: int











section \<open>Devices and their timing on the acquisition clock\<close>

text \<open>
  A Python \<open>float\<close>: a finite value, an infinity or NaN. Only conversion from \<open>int\<close>,
  negation and the tests \<open>isnan\<close> and \<open>isfinite\<close> are computed here; the sign of zero
  is not kept.
\<close>

datatype pyfloat = Finite rat | PosInf | NegInf | NaN


fun fneg :: "pyfloat \<Rightarrow> pyfloat" where
  "fneg (Finite q) = Finite (- q)"
| "fneg PosInf = NegInf"
| "fneg NegInf = PosInf"
| "fneg NaN = NaN"

fun isnan :: "pyfloat \<Rightarrow> bool" where
  "isnan NaN = True"
| "isnan _ = False"

fun isfinite :: "pyfloat \<Rightarrow> bool" where
  "isfinite (Finite q) = True"
| "isfinite _ = False"

record ephys_device_info =
  name :: string
  continuous :: path
  events :: path
  ttl :: path
  compressed :: "path option"
  ttl_sample_numbers :: "int list"
  ttl_states :: "int list"

text \<open>
  The protocol \<open>EphysTimingInfo\<close> is the record of the fields its two implementations
  share; \<open>EphysTimingInfoOnPXI\<close> adds \<open>start_sample\<close>, \<open>EphysTimingInfoOnSync\<close> adds
  nothing.
\<close>

record ephys_timing_info =
  device :: ephys_device_info
  sampling_rate :: pyfloat
  start_time :: pyfloat


type_synonym ephys_timing_info_on_sync = ephys_timing_info







section \<open>Manifests and their merge\<close>

text \<open>
  A parsed \<open>structure.oebin\<close> is a \<open>dict\<close> whose values are lists of stream descriptors
  (\<open>continuous\<close>, \<open>events\<close>, \<open>spikes\<close>) or something else (\<open>GUI version\<close>). A
  descriptor is opaque: equality on \<open>'d\<close> is Python's \<open>==\<close> on it. What \<open>json.loads\<close>
  makes of a text, the \<open>folder_name\<close> of a descriptor, the checksum of a file and what
  \<open>npc_ephys.settings_xml.get_settings_xml_data\<close> reads in a settings file are
  parameters.
\<close>

datatype 'd json_value = JList "'d list" | JOther string

type_synonym 'd oebin = "(string, 'd json_value) dict"

record ('d, 'x) formats =
  json_loads :: "string \<Rightarrow> error + 'd oebin"
  folder_name :: "'d \<Rightarrow> string option"
  checksum :: "byte list \<Rightarrow> nat"
  get_settings_xml_data :: "byte list \<Rightarrow> error + 'x"

definition get_oebin_data :: "('d, 'x) formats \<Rightarrow> filesystem \<Rightarrow> path \<Rightarrow> error + 'd oebin" where
  "get_oebin_data fmt fs path = and_then (read_all fs path) (json_loads fmt)"

fun map_results :: "('a \<Rightarrow> error + 'b) \<Rightarrow> 'a list \<Rightarrow> error + 'b list" where
  "map_results f [] = Inr []"
| "map_results f (x # xs) =
     and_then (f x) (\<lambda>y. and_then (map_results f xs) (\<lambda>ys. Inr (y # ys)))"

text \<open>
  Modelled from the spec: \<open>npc_io.checksums_match\<close>, the fast comparison of the files by
  checksum, true when all files have the same checksum.
\<close>

definition checksums_match :: "('d, 'x) formats \<Rightarrow> filesystem \<Rightarrow> path list \<Rightarrow> error + bool" where
  "checksums_match fmt fs paths =
     and_then (map_results (read_all fs) paths) (\<lambda>contents.
       Inr (list_all (\<lambda>c. checksum fmt c = checksum fmt (hd contents)) contents))"

definition assert_xml_files_match ::
  "('d, 'x) formats \<Rightarrow> filesystem \<Rightarrow> path list \<Rightarrow> error + unit" where
  "assert_xml_files_match fmt fs paths =
     (if \<not> list_all (\<lambda>p. suffix_of p = ''.xml'') paths then Inl ValueError
      else if \<not> list_all (is_file fs) paths then Inl FileNotFoundError
      else and_then (checksums_match fmt fs paths) (\<lambda>same.
        if same then Inr ()
        else and_then
               (map_results (\<lambda>p. and_then (read_all fs p) (get_settings_xml_data fmt)) paths)
               (\<lambda>data.
                  if list_all (\<lambda>d. d = hd data) data then Inr ()
                  else Inl (AssertionError ''XML files do not match''))))"

text \<open>
  The test \<open>exclude_probe_names and any(p.lower() in item.get("folder_name", "").lower()
  for p in exclude_probe_names)\<close> of the merge.
\<close>

definition in_excl_list :: "('d, 'x) formats \<Rightarrow> string list option \<Rightarrow> 'd \<Rightarrow> bool" where
  "in_excl_list fmt exclude_probe_names item =
     (case exclude_probe_names of
        None \<Rightarrow> False
      | Some names \<Rightarrow>
          names \<noteq> []
          \<and> list_ex (\<lambda>p. contains (lower (case folder_name fmt item of None \<Rightarrow> [] | Some f \<Rightarrow> f))
                                (lower p)) names)"

definition get_or_empty :: "(string, 'd list) dict \<Rightarrow> string \<Rightarrow> 'd list" where
  "get_or_empty merged key = (case dict_get merged key of None \<Rightarrow> [] | Some xs \<Rightarrow> xs)"

fun merge_items ::
  "('d, 'x) formats \<Rightarrow> string list option \<Rightarrow> string \<Rightarrow> 'd list \<Rightarrow>
   (string, 'd list) dict \<Rightarrow> (string, 'd list) dict" where
  "merge_items fmt excl key [] merged_oebin = merged_oebin"
| "merge_items fmt excl key (item # items) merged_oebin =
     (if item \<in> set (get_or_empty merged_oebin key) then merge_items fmt excl key items merged_oebin
      else if in_excl_list fmt excl item then merge_items fmt excl key items merged_oebin
      else merge_items fmt excl key items
             (dict_set merged_oebin key (get_or_empty merged_oebin key @ [item])))"

fun merge_keys ::
  "('d, 'x) formats \<Rightarrow> string list option \<Rightarrow> 'd oebin \<Rightarrow>
   (string, 'd list) dict \<Rightarrow> (string, 'd list) dict" where
  "merge_keys fmt excl [] merged_oebin = merged_oebin"
| "merge_keys fmt excl ((key, v) # oebin_data) merged_oebin =
     (if map_option JList (dict_get merged_oebin key) = Some v
      then merge_keys fmt excl oebin_data merged_oebin
      else (case v of
              JList items \<Rightarrow>
                merge_keys fmt excl oebin_data (merge_items fmt excl key items merged_oebin)
            | JOther _ \<Rightarrow> merge_keys fmt excl oebin_data merged_oebin))"

fun merge_files ::
  "('d, 'x) formats \<Rightarrow> filesystem \<Rightarrow> string list option \<Rightarrow> path list \<Rightarrow>
   (string, 'd list) dict \<Rightarrow> error + (string, 'd list) dict" where
  "merge_files fmt fs excl [] merged_oebin = Inr merged_oebin"
| "merge_files fmt fs excl (oebin_path # oebin_paths) merged_oebin =
     and_then (get_oebin_data fmt fs oebin_path) (\<lambda>oebin_data.
       merge_files fmt fs excl oebin_paths (merge_keys fmt excl oebin_data merged_oebin))"

definition settings_of :: "path \<Rightarrow> path" where
  "settings_of o_path = child (parent (parent (parent o_path))) ''settings.xml''"

definition get_merged_oebin_file ::
  "('d, 'x) formats \<Rightarrow> filesystem \<Rightarrow> path list \<Rightarrow> string list option \<Rightarrow> error + 'd oebin" where
  "get_merged_oebin_file fmt fs oebin_paths exclude_probe_names =
     (if length oebin_paths = 1 then get_oebin_data fmt fs (oebin_paths ! 0)
      else if list_ex (\<lambda>p. suffix_of p \<noteq> ''.oebin'') oebin_paths then Inl ValueError
      else and_then (assert_xml_files_match fmt fs (map settings_of oebin_paths)) (\<lambda>u.
             and_then (merge_files fmt fs exclude_probe_names (sort oebin_paths) [])
               (\<lambda>merged_oebin.
                  if merged_oebin = [] then Inl ValueError
                  else Inr (map (\<lambda>(key, xs). (key, JList xs)) merged_oebin))))"

text \<open>
  For the statements about the merge: what the loop over the items of one list adds to the
  list \<open>cur\<close> already merged under the key, and a manifest that the merge has nothing to
  take from (distinct keys, every value a list that is not empty, of distinct descriptors
  none of which is excluded).
\<close>

fun additions :: "('d, 'x) formats \<Rightarrow> string list option \<Rightarrow> 'd list \<Rightarrow> 'd list \<Rightarrow> 'd list" where
  "additions fmt excl cur [] = []"
| "additions fmt excl cur (x # xs) =
     (if x \<in> set cur \<or> in_excl_list fmt excl x then additions fmt excl cur xs
      else x # additions fmt excl (cur @ [x]) xs)"

definition plain_manifest :: "('d, 'x) formats \<Rightarrow> string list option \<Rightarrow> 'd oebin \<Rightarrow> bool" where
  "plain_manifest fmt excl d =
     (d \<noteq> [] \<and> distinct (map fst d)
      \<and> list_all (\<lambda>(k, v). case v of
                               JList xs \<Rightarrow> xs \<noteq> [] \<and> distinct xs
                                           \<and> list_all (\<lambda>x. \<not> in_excl_list fmt excl x) xs
                             | JOther _ \<Rightarrow> False) d)"

text \<open>
  The invariant of a merged dictionary (keys once, no list empty, no descriptor twice in a
  list, none excluded), and a manifest all of whose descriptors are already merged or
  excluded.
\<close>

definition merged_ok ::
  "('d, 'x) formats \<Rightarrow> string list option \<Rightarrow> (string, 'd list) dict \<Rightarrow> bool" where
  "merged_ok fmt excl m =
     (distinct (map fst m)
      \<and> list_all (\<lambda>(k, xs). xs \<noteq> [] \<and> distinct xs
                               \<and> list_all (\<lambda>x. \<not> in_excl_list fmt excl x) xs) m)"

definition covered ::
  "('d, 'x) formats \<Rightarrow> string list option \<Rightarrow> 'd oebin \<Rightarrow> (string, 'd list) dict \<Rightarrow> bool" where
  "covered fmt excl d m =
     list_all (\<lambda>(k, v). case v of
                              JList xs \<Rightarrow>
                                list_all (\<lambda>x. x \<in> set (get_or_empty m k) \<or> in_excl_list fmt excl x) xs
                            | JOther _ \<Rightarrow> True) d"

section \<open>Examples\<close>

text \<open>A store with one array of three two-byte elements, as a version 1 and as a version 2 container.\<close>

definition example_header :: string where
  "example_header = ''{'descr': '<u2', 'fortran_order': False, 'shape': (3,), }  '' @ [CHR 0x0A]"

definition example_numpy :: "nat numpy" where
  "example_numpy =
     \<lparr>eval_header = (\<lambda>s. if s = ''{'descr': '<u2', 'fortran_order': False, 'shape': (3,), }''
                           then Inr \<lparr>shape = [3], descr = ''<u2'', fortran_order = False\<rparr>
                           else Inl (OtherError ''SyntaxError'')),
      itemsize = (\<lambda>d. if d = ''<u2'' then Inr 2 else Inl (OtherError ''TypeError'')),
      decode = (\<lambda>d. from_bytes_little),
      load = (\<lambda>bs. Inl (OtherError ''not used''))\<rparr>"

definition example_data :: "byte list" where
  "example_data = [CHR 0x01, CHR 0x00, CHR 0x02, CHR 0x00, CHR 0x03, CHR 0x01]"

definition example_store :: filesystem where
  "example_store =
     [([''a''], Folder),
      ([''a'', ''v1.npy''], File (npy_container 1 0 example_header example_data)),
      ([''a'', ''v2.npy''], File (npy_container 2 0 example_header example_data))]"

text \<open>
  One acquisition node with two recordings: \<open>recording1\<close> holds a manifest only,
  \<open>recording2\<close> holds a manifest and eight bytes of data.
\<close>

definition example_node :: path where
  "example_node = [''data'', ''Record Node 102'']"

definition example_rec1 :: path where
  "example_rec1 = example_node @ [''experiment1'', ''recording1'']"

definition example_rec2 :: path where
  "example_rec2 = example_node @ [''experiment1'', ''recording2'']"

definition example_session :: filesystem where
  "example_session =
     [([''data''], Folder),
      (example_node, Folder),
      (example_node @ [''experiment1''], Folder),
      (example_rec1, Folder),
      (example_rec1 @ [''structure.oebin''], File ''{}''),
      (example_rec2, Folder),
      (example_rec2 @ [''structure.oebin''], File ''{}''),
      (example_rec2 @ [''continuous''], Folder),
      (example_rec2 @ [''continuous'', ''ProbeA''], Folder),
      (example_rec2 @ [''continuous'', ''ProbeA'', ''continuous.dat''], File ''abcdefgh'')]"












section \<open>Properties of the partial reader\<close>

lemma and_then_Inr [simp]: "and_then (Inr v) f = f v"
  by (simp add: and_then_def)

lemma and_then_Inl [simp]: "and_then (Inl e) f = Inl e"
  by (simp add: and_then_def)

lemma from_to_bytes_little: "n < 256 ^ k \<Longrightarrow> from_bytes_little (to_bytes_little k n) = n"
proof (induction k arbitrary: n)
  case 0
  then show ?case by simp
next
  case (Suc k)
  have "n div 256 < 256 ^ k"
    using Suc.prems by (simp add: less_mult_imp_div_less mult.commute)
  then have "from_bytes_little (to_bytes_little k (n div 256)) = n div 256"
    by (rule Suc.IH)
  then show ?case by simp
qed

lemma length_to_bytes_little [simp]: "length (to_bytes_little k n) = k"
  by (induction k arbitrary: n) simp_all

lemma chunks_Nil [simp]: "chunks k [] = []"
  by (simp add: chunks.simps)

lemma chunks_step: "0 < k \<Longrightarrow> xs \<noteq> [] \<Longrightarrow> chunks k xs = take k xs # chunks k (drop k xs)"
  by (subst chunks.simps) simp

lemma drop_chunks: "0 < k \<Longrightarrow> drop i (chunks k xs) = chunks k (drop (i * k) xs)"
proof (induction i arbitrary: xs)
  case 0
  then show ?case by simp
next
  case (Suc i)
  show ?case
  proof (cases "xs = []")
    case True
    then show ?thesis by simp
  next
    case False
    have "drop (Suc i) (chunks k xs) = drop i (chunks k (drop k xs))"
      using Suc.prems False by (simp add: chunks_step)
    also have "\<dots> = chunks k (drop (i * k) (drop k xs))"
      using Suc.prems by (rule Suc.IH)
    finally show ?thesis by (simp add: add.commute)
  qed
qed

lemma take_chunks: "0 < k \<Longrightarrow> take m (chunks k xs) = chunks k (take (m * k) xs)"
proof (induction m arbitrary: xs)
  case 0
  then show ?case by simp
next
  case (Suc m)
  show ?case
  proof (cases "xs = []")
    case True
    then show ?thesis by simp
  next
    case False
    have ne: "take (Suc m * k) xs \<noteq> []"
      using False Suc.prems by (cases xs) auto
    have "take (Suc m) (chunks k xs) = take k xs # take m (chunks k (drop k xs))"
      using Suc.prems False by (simp add: chunks_step)
    also have "\<dots> = take k xs # chunks k (take (m * k) (drop k xs))"
      using Suc.prems by (simp add: Suc.IH)
    also have "\<dots> = chunks k (take (Suc m * k) xs)"
    proof -
      have a: "take k (take (Suc m * k) xs) = take k xs"
        by (simp add: min_def)
      have b: "drop k (take (Suc m * k) xs) = take (m * k) (drop k xs)"
        by (simp add: drop_take)
      show ?thesis
        using chunks_step [OF Suc.prems ne] a b by simp
    qed
    finally show ?thesis .
  qed
qed

lemma read_bytes_file:
  "map_of fs p = Some (File bs) \<Longrightarrow> read_bytes fs p a b = Inr (take (b - a) (drop a bs))"
  by (simp add: read_bytes_def read_all_def)

lemma length_magic [simp]: "length magic = 6"
  by (simp add: magic_def)

lemma container_major:
  "take (7 - 6) (drop 6 (npy_container major minor hdr dat)) = [char_of major]"
  by (simp add: npy_container_def)

lemma container_header_len:
  "w = (if major = 1 then 2 else 4) \<Longrightarrow>
   take ((8 + w) - 8) (drop 8 (npy_container major minor hdr dat)) = to_bytes_little w (length hdr)"
  by (simp add: npy_container_def)

lemma container_header:
  "w = (if major = 1 then 2 else 4) \<Longrightarrow>
   take ((8 + w + length hdr) - (8 + w)) (drop (8 + w) (npy_container major minor hdr dat)) = hdr"
  by (simp add: npy_container_def)

lemma container_data:
  "w = (if major = 1 then 2 else 4) \<Longrightarrow>
   drop (8 + w + length hdr + a) (npy_container major minor hdr dat) = drop a dat"
  by (simp add: npy_container_def)

lemma read_range_container:
  assumes obj: "map_of fs p = Some (File (npy_container major minor hdr dat))"
    and major: "major < 256"
    and hlen: "length hdr < (if major = 1 then 2 ^ 16 else 2 ^ 32)"
    and hdr: "eval_header np (strip (strip_chars [CHR 0x0A] hdr)) = Inr h"
    and shape: "shape h = [n]"
    and size: "itemsize np (descr h) = Inr k" "0 < k"
    and dat: "length dat = n * k"
    and rng: "i \<le> j" "j \<le> n"
    and arg: "range_start r = i" "range_stop r = j"
  shows "read_array_range_from_npy np fs p r =
           Inr (take (j - i) (drop i (map (decode np (descr h)) (chunks k dat))))"
proof -
  define w :: nat where "w = (if major = 1 then 2 else 4)"
  have w: "w = (if major = 1 then 2 else 4)" by (simp add: w_def)
  have r1: "read_bytes fs p 6 7 = Inr [char_of major]"
    using read_bytes_file [OF obj, of 6 7] container_major by simp
  have vm: "from_bytes_little [char_of major] = major"
    using major by simp
  have stop: "(if major = 1 then 10 else 12) = 8 + w"
    by (simp add: w_def)
  have r2: "read_bytes fs p 8 (8 + w) = Inr (to_bytes_little w (length hdr))"
    using read_bytes_file [OF obj, of 8 "8 + w"] container_header_len [OF w] by simp
  have "length hdr < 256 ^ w"
    using hlen by (simp add: w_def split: if_splits)
  then have hl: "from_bytes_little (to_bytes_little w (length hdr)) = length hdr"
    by (rule from_to_bytes_little)
  have r3: "read_bytes fs p (8 + w) (8 + w + length hdr) = Inr hdr"
    using read_bytes_file [OF obj, of "8 + w" "8 + w + length hdr"] container_header [OF w]
    by simp
  let ?buf = "take ((j - i) * k) (drop (i * k) dat)"
  have "take ((8 + w + length hdr + j * k) - (8 + w + length hdr + i * k))
          (drop (8 + w + length hdr + i * k) (npy_container major minor hdr dat)) = ?buf"
    using container_data [OF w, where a = "i * k"] by (simp add: diff_mult_distrib)
  then have r4: "read_bytes fs p (8 + w + length hdr + i * k) (8 + w + length hdr + j * k) = Inr ?buf"
    using read_bytes_file [OF obj, of "8 + w + length hdr + i * k" "8 + w + length hdr + j * k"]
    by simp
  have "j * k \<le> n * k"
    using rng by simp
  then have "(j - i) * k \<le> length (drop (i * k) dat)"
    using dat by (simp add: diff_mult_distrib diff_le_mono)
  then have len: "length ?buf = (j - i) * k"
    by simp
  have fb: "frombuffer np ?buf (descr h) = Inr (map (decode np (descr h)) (chunks k ?buf))"
    using size len by (simp add: frombuffer_def)
  have "chunks k ?buf = take (j - i) (drop i (chunks k dat))"
    using size(2) by (simp add: take_chunks drop_chunks)
  then show ?thesis
    unfolding read_array_range_from_npy_def
    using r1 vm stop r2 hl r3 hdr shape size(1) r4 fb arg
    by (simp add: Let_def take_map drop_map)
qed

text \<open>
  Claim C1. For an object holding a one-dimensional array in the documented container
  (magic, major and minor version, the header length on two bytes for major version 1
  and on four otherwise, the header text, the element bytes) and for element indices
  \<open>i \<le> j \<le> n\<close>, \<open>read_array_range_from_npy\<close> with \<open>slice(i, j)\<close> returns the
  elements \<open>[i:j]\<close> of the whole array. The result does not mention the version: a
  version 1 and a later container of the same content give the same elements.
\<close>

theorem read_array_range_from_npy_slice:
  assumes "map_of fs p = Some (File (npy_container major minor hdr dat))"
    and "major < 256"
    and "length hdr < (if major = 1 then 2 ^ 16 else 2 ^ 32)"
    and "eval_header np (strip (strip_chars [CHR 0x0A] hdr)) = Inr h"
    and "shape h = [n]"
    and "itemsize np (descr h) = Inr k" and "0 < k"
    and "length dat = n * k"
    and "i \<le> j" and "j \<le> n"
  shows "read_array_range_from_npy np fs p (Slice i j) =
           Inr (take (j - i) (drop i (map (decode np (descr h)) (chunks k dat))))"
  using assms by (rule read_range_container) simp_all

theorem read_array_range_from_npy_slice_witness:
  "read_array_range_from_npy example_numpy example_store [''a'', ''v1.npy''] (Slice 1 3) = Inr [2, 259]
   \<and> read_array_range_from_npy example_numpy example_store [''a'', ''v2.npy''] (Slice 1 3) = Inr [2, 259]"
proof -
  have h: "eval_header example_numpy (strip (strip_chars [CHR 0x0A] example_header))
             = Inr \<lparr>shape = [3], descr = ''<u2'', fortran_order = False\<rparr>"
    by (simp add: example_numpy_def example_header_def strip_def strip_chars_def whitespace_def)
  have full: "map (decode example_numpy ''<u2'') (chunks 2 example_data) = [1, 2, 259]"
    by (simp add: example_numpy_def example_data_def chunks.simps)
  have v1: "read_array_range_from_npy example_numpy example_store [''a'', ''v1.npy''] (Slice 1 3)
              = Inr (take (3 - 1) (drop 1 (map (decode example_numpy ''<u2'') (chunks 2 example_data))))"
    using read_array_range_from_npy_slice
      [of example_store "[''a'', ''v1.npy'']" 1 0 example_header example_data example_numpy
          "\<lparr>shape = [3], descr = ''<u2'', fortran_order = False\<rparr>" 3 2 1 3] h
    by (simp add: example_store_def example_header_def example_data_def example_numpy_def)
  have v2: "read_array_range_from_npy example_numpy example_store [''a'', ''v2.npy''] (Slice 1 3)
              = Inr (take (3 - 1) (drop 1 (map (decode example_numpy ''<u2'') (chunks 2 example_data))))"
    using read_array_range_from_npy_slice
      [of example_store "[''a'', ''v2.npy'']" 2 0 example_header example_data example_numpy
          "\<lparr>shape = [3], descr = ''<u2'', fortran_order = False\<rparr>" 3 2 1 3] h
    by (simp add: example_store_def example_header_def example_data_def example_numpy_def)
  show ?thesis
    using v1 v2 full by simp
qed

section \<open>Properties of the choice of a manifest\<close>

lemma py_max_Cons: "xs \<noteq> [] \<Longrightarrow> py_max xs = Inr (Max (set xs))"
proof (cases xs)
  case Nil
  then show "xs \<noteq> [] \<Longrightarrow> ?thesis" by simp
next
  case (Cons y ys)
  show ?thesis
    unfolding Cons using Max.set_eq_fold [of y ys] by (simp add: py_max_def)
qed

lemma index_first:
  "v \<in> set xs \<Longrightarrow>
   \<exists>k<length xs. index xs v = Inr k \<and> xs ! k = v \<and> (\<forall>i<k. xs ! i \<noteq> v)"
proof (induction xs)
  case Nil
  then show ?case by simp
next
  case (Cons x xs)
  show ?case
  proof (cases "x = v")
    case True
    then show ?thesis by auto
  next
    case False
    with Cons.prems have "v \<in> set xs" by simp
    then obtain k where k: "k < length xs" "index xs v = Inr k" "xs ! k = v" "\<forall>i<k. xs ! i \<noteq> v"
      using Cons.IH by blast
    have "\<forall>i<Suc k. (x # xs) ! i \<noteq> v"
      using False k(4) by (auto simp: nth_Cons split: nat.splits)
    then show ?thesis
      using False k by (intro exI [of _ "Suc k"]) simp
  qed
qed

lemma distinct_rglob: "distinct (map fst fs) \<Longrightarrow> distinct (rglob fs p pat)"
  by (simp add: rglob_def)

lemma select_largest:
  assumes "2 \<le> length ps" and "sizes = map f ps"
  shows "\<exists>k<length ps. and_then (py_max sizes) (\<lambda>m. and_then (index sizes m) (\<lambda>i. Inr (ps ! i))) = Inr (ps ! k)
           \<and> (\<forall>i<length ps. sizes ! i \<le> sizes ! k) \<and> (\<forall>i<k. sizes ! i < sizes ! k)"
proof -
  have ne: "sizes \<noteq> []" using assms by auto
  let ?m = "Max (set sizes)"
  have mx: "py_max sizes = Inr ?m" using ne by (rule py_max_Cons)
  have "?m \<in> set sizes" using ne by (simp add: Max_in)
  from index_first [OF this]
  obtain k where k: "k < length sizes" "index sizes ?m = Inr k" "sizes ! k = ?m"
      "\<forall>i<k. sizes ! i \<noteq> ?m"
    by (elim exE conjE)
  have le: "\<forall>i<length sizes. sizes ! i \<le> ?m"
    by simp
  have "\<forall>i<k. sizes ! i < sizes ! k"
  proof (intro allI impI)
    fix i assume "i < k"
    then have "sizes ! i \<noteq> ?m" "sizes ! i \<le> ?m" using k(1,4) le by auto
    then show "sizes ! i < sizes ! k" using k(3) by simp
  qed
  then show ?thesis
    using k mx le assms(2) by (intro exI [of _ k]) simp
qed

text \<open>
  Claim C3. Under a directory with exactly one \<open>structure*.oebin\<close>,
  \<open>get_single_oebin_path\<close> returns it (and nothing is superfluous). With two or more it
  returns the one whose folder is the largest, the first of them in the enumeration when
  several are as large, and \<open>get_superfluous_oebin_paths\<close> returns exactly the others,
  one fewer than there are manifests.
\<close>

theorem get_single_oebin_path_largest:
  fixes fs :: filesystem and path :: path
  defines "manifests \<equiv> rglob fs path ''structure*.oebin''"
  defines "sizes \<equiv> map (\<lambda>p. get_size fs (parent p)) manifests"
  assumes dir: "is_dir fs path" and listing: "distinct (map fst fs)"
  shows "(length manifests = 1 \<longrightarrow>
            get_single_oebin_path fs path = Inr (manifests ! 0)
            \<and> get_superfluous_oebin_paths fs path = Inr [])
       \<and> (2 \<le> length manifests \<longrightarrow>
            (\<exists>k<length manifests.
               get_single_oebin_path fs path = Inr (manifests ! k)
               \<and> (\<forall>i<length manifests. sizes ! i \<le> sizes ! k)
               \<and> (\<forall>i<k. sizes ! i < sizes ! k)
               \<and> (\<exists>rest. get_superfluous_oebin_paths fs path = Inr rest
                      \<and> set rest = set manifests - {manifests ! k}
                      \<and> distinct rest
                      \<and> length rest = length manifests - 1)))"
proof (rule conjI; rule impI)
  assume one: "length manifests = 1"
  then have ne: "manifests \<noteq> []" by auto
  have "get_single_oebin_path fs path = Inr (manifests ! 0)"
    unfolding get_single_oebin_path_def manifests_def [symmetric] Let_def
    using dir ne one by simp
  moreover have "get_superfluous_oebin_paths fs path = Inr []"
    unfolding get_superfluous_oebin_paths_def manifests_def [symmetric] Let_def
    using one by simp
  ultimately show "get_single_oebin_path fs path = Inr (manifests ! 0)
             \<and> get_superfluous_oebin_paths fs path = Inr []"
    by (rule conjI)
next
  assume two: "2 \<le> length manifests"
  have sz: "map (get_size fs) (map parent manifests) = sizes"
    by (simp add: sizes_def)
  obtain k where k: "k < length manifests"
      "and_then (py_max sizes) (\<lambda>m. and_then (index sizes m) (\<lambda>i. Inr (manifests ! i)))
         = Inr (manifests ! k)"
      "\<forall>i<length manifests. sizes ! i \<le> sizes ! k" "\<forall>i<k. sizes ! i < sizes ! k"
    using select_largest [OF two, of sizes "\<lambda>p. get_size fs (parent p)"] sizes_def by blast
  have ne: "manifests \<noteq> []" "length manifests \<noteq> 1" using two by auto
  have single: "get_single_oebin_path fs path = Inr (manifests ! k)"
    unfolding get_single_oebin_path_def manifests_def [symmetric] Let_def sz
    using dir ne k(2) by simp
  let ?rest = "filter (\<lambda>p. p \<noteq> manifests ! k) (remdups manifests)"
  have d: "distinct manifests"
    using listing by (simp add: manifests_def distinct_rglob)
  have sup: "get_superfluous_oebin_paths fs path = Inr ?rest"
    unfolding get_superfluous_oebin_paths_def manifests_def [symmetric] Let_def
    using ne single by simp
  have eq: "set ?rest = set manifests - {manifests ! k}"
    by auto
  have dr: "distinct ?rest"
    by simp
  have "manifests ! k \<in> set manifests"
    using k(1) by simp
  then have "card (set manifests - {manifests ! k}) = card (set manifests) - 1"
    by (simp add: card_Diff_singleton)
  then have "card (set ?rest) = card (set manifests) - 1"
    by (simp only: eq)
  then have len: "length ?rest = length manifests - 1"
    using d dr by (simp only: distinct_card)
  have "\<exists>rest. get_superfluous_oebin_paths fs path = Inr rest
                      \<and> set rest = set manifests - {manifests ! k}
                      \<and> distinct rest
                      \<and> length rest = length manifests - 1"
    using sup eq dr len by (intro exI [of _ ?rest] conjI)
  then show "\<exists>k<length manifests.
               get_single_oebin_path fs path = Inr (manifests ! k)
               \<and> (\<forall>i<length manifests. sizes ! i \<le> sizes ! k)
               \<and> (\<forall>i<k. sizes ! i < sizes ! k)
               \<and> (\<exists>rest. get_superfluous_oebin_paths fs path = Inr rest
                      \<and> set rest = set manifests - {manifests ! k}
                      \<and> distinct rest
                      \<and> length rest = length manifests - 1)"
    using k(1,3,4) single by (intro exI [of _ k] conjI)
qed

lemma example_session_manifests:
  "rglob example_session example_node ''structure*.oebin''
     = [example_rec1 @ [''structure.oebin''], example_rec2 @ [''structure.oebin'']]"
  "rglob example_session example_rec1 ''structure*.oebin'' = [example_rec1 @ [''structure.oebin'']]"
  by (simp_all add: rglob_def is_dir_def example_session_def example_node_def example_rec1_def
        example_rec2_def path_name_def)

lemma example_session_sizes:
  "get_size example_session example_rec1 = 2" "get_size example_session example_rec2 = 10"
  by (simp_all add: get_size_def example_session_def example_node_def example_rec1_def
        example_rec2_def)

lemma example_session_listing:
  "is_dir example_session example_node" "is_dir example_session example_rec1"
  "distinct (map fst example_session)"
  by (simp_all add: is_dir_def example_session_def example_node_def example_rec1_def
        example_rec2_def)

theorem get_single_oebin_path_largest_witness:
  "is_dir example_session example_node \<and> distinct (map fst example_session)
   \<and> get_single_oebin_path example_session example_node
         = Inr (example_rec2 @ [''structure.oebin''])
   \<and> get_superfluous_oebin_paths example_session example_node
         = Inr [example_rec1 @ [''structure.oebin'']]
   \<and> get_single_oebin_path example_session example_rec1
         = Inr (example_rec1 @ [''structure.oebin''])
   \<and> get_superfluous_oebin_paths example_session example_rec1 = Inr []"
proof -
  let ?m1 = "example_rec1 @ [''structure.oebin'']" and ?m2 = "example_rec2 @ [''structure.oebin'']"
  have ne: "?m1 \<noteq> ?m2"
    by (simp add: example_rec1_def example_rec2_def)
  note whole = get_single_oebin_path_largest
      [OF example_session_listing(1) example_session_listing(3),
       unfolded example_session_manifests]
  have par: "parent ?m1 = example_rec1" "parent ?m2 = example_rec2"
    by (simp_all add: parent_def)
  let ?ms = "[?m1, ?m2]"
  let ?sz = "map (\<lambda>p. get_size example_session (parent p)) ?ms"
  have "2 \<le> length ?ms" by simp
  from whole [THEN conjunct2, THEN mp, OF this]
  obtain k rest where k0: "k < length ?ms"
      and single: "get_single_oebin_path example_session example_node = Inr (?ms ! k)"
      and largest0: "\<forall>i<length ?ms. ?sz ! i \<le> ?sz ! k"
      and rest0: "get_superfluous_oebin_paths example_session example_node = Inr rest"
        "set rest = set ?ms - {?ms ! k}" "distinct rest" "length rest = length ?ms - 1"
    by (elim exE conjE)
  have k: "k < 2" using k0 by simp
  have largest: "\<forall>i<2. [2, 10::nat] ! i \<le> [2, 10] ! k"
    using largest0 by (simp add: par example_session_sizes)
  note rest = rest0(1) rest0(2) rest0(3) rest0(4) [simplified]
  have "[2, 10::nat] ! 1 \<le> [2, 10] ! k"
    using largest by (elim allE [of _ 1]) simp
  then have "k \<noteq> 0"
    by (intro notI) simp
  with k have k1: "k = 1" by simp
  have "set rest = {?m1}"
    using rest(2) ne by (auto simp: k1)
  with rest(3,4) have "rest = [?m1]"
    by (cases rest) auto
  moreover note one = get_single_oebin_path_largest
      [OF example_session_listing(2) example_session_listing(3),
       unfolded example_session_manifests]
  ultimately show ?thesis
    using single rest(1) k1 one example_session_listing by simp
qed

section \<open>Properties of the enumeration of kept paths\<close>

lemma for_each_yield:
  "y \<in> set (fst (for_each xs body)) \<Longrightarrow> \<exists>x\<in>set xs. y \<in> set (fst (body x))"
proof (induction xs)
  case Nil
  then show ?case by simp
next
  case (Cons x xs)
  obtain ys r where b: "body x = (ys, r)" by (cases "body x")
  show ?case
  proof (cases r)
    case (Some e)
    then show ?thesis using Cons.prems b by auto
  next
    case None
    obtain zs r' where f: "for_each xs body = (zs, r')" by (cases "for_each xs body")
    from Cons.prems b None f have "y \<in> set ys \<or> y \<in> set zs" by auto
    then show ?thesis
    proof
      assume "y \<in> set ys"
      then show ?thesis using b by auto
    next
      assume "y \<in> set zs"
      then have "y \<in> set (fst (for_each xs body))" using f by simp
      then show ?thesis using Cons.IH by auto
    qed
  qed
qed

lemma set_butlast_distinct:
  "distinct xs \<Longrightarrow> xs \<noteq> [] \<Longrightarrow> set (butlast xs) = set xs - {last xs}"
proof (induction xs rule: rev_induct)
  case Nil
  then show ?case by simp
next
  case (snoc x xs)
  then show ?case by auto
qed

lemma set_parents: "set (parents p) = {q. strict_prefix q p}"
proof -
  have "set (butlast (prefixes p)) = set (prefixes p) - {last (prefixes p)}"
    by (rule set_butlast_distinct) (simp_all add: distinct_prefixes)
  then have "set (parents p) = set (prefixes p) - {p}"
    by (simp add: parents_def)
  also have "\<dots> = {q. prefix q p} - {p}"
    by (rule set_eqI) (simp only: in_set_prefixes Diff_iff mem_Collect_eq)
  also have "\<dots> = {q. strict_prefix q p}"
    by (rule set_eqI) (simp add: strict_prefix_def)
  finally show ?thesis .
qed

lemma rglob_descendant: "q \<in> set (rglob fs p pat) \<Longrightarrow> strict_prefix p q"
  by (auto simp: rglob_def split: if_splits)

lemma rglob_name: "q \<in> set (rglob fs p pat) \<Longrightarrow> glob_match pat (path_name q)"
  by (auto simp: rglob_def split: if_splits)

lemma relative_to_parent:
  assumes "strict_prefix node q" and "node \<noteq> []"
  shows "\<exists>rel. relative_to q (parent node) = Inr rel \<and> rel \<noteq> [] \<and> hd rel = path_name node
           \<and> parent node @ rel = q"
proof -
  obtain zs where q: "q = node @ zs"
    using assms(1) by (auto simp: strict_prefix_def prefix_def)
  have n: "node = butlast node @ [last node]"
    using assms(2) by simp
  have "q = butlast node @ (last node # zs)"
    by (subst q, subst n) simp
  then show ?thesis
    using assms(2) by (simp add: relative_to_def parent_def path_name_def)
qed

text \<open>
  Claim C8. Every pair (absolute path, relative path) that
  \<open>get_filtered_ephys_paths_relative_to_record_node_parents\<close> yields comes from one
  \<open>Record Node*\<close> folder under the top-level path: the relative path is the absolute
  path made relative to that folder's parent, so it begins with the folder's name, and no
  superfluous recording folder of that node (the parent of a manifest that is not the
  chosen one) is a proper ancestor of the absolute path.
\<close>

theorem kept_paths_anchored:
  assumes "(abs_path, rel) \<in>
             set (fst (get_filtered_ephys_paths_relative_to_record_node_parents fs toplevel))"
  shows "\<exists>record_node\<in>set (rglob fs toplevel ''Record Node*''). \<exists>superfluous.
           get_superfluous_oebin_paths fs record_node = Inr superfluous
           \<and> strict_prefix record_node abs_path
           \<and> relative_to abs_path (parent record_node) = Inr rel
           \<and> parent record_node @ rel = abs_path
           \<and> rel \<noteq> [] \<and> hd rel = path_name record_node
           \<and> glob_match ''Record Node*'' (hd rel)
           \<and> (\<forall>s\<in>set superfluous. \<not> strict_prefix (parent s) abs_path)"
proof -
  let ?body = "\<lambda>record_node.
       case get_superfluous_oebin_paths fs record_node of
         Inl e \<Rightarrow> ([], Some e)
       | Inr superfluous \<Rightarrow>
           let superfluous_recording_dirs = map parent superfluous in
           for_each (rglob fs record_node ''*'') (\<lambda>abs_path.
             let is_superfluous_path =
                   list_ex (\<lambda>d. d \<in> set (parents abs_path)) superfluous_recording_dirs
             in if is_superfluous_path then ([], None)
                else (case relative_to abs_path (parent record_node) of
                        Inl e \<Rightarrow> ([], Some e)
                      | Inr rel \<Rightarrow> ([(abs_path, rel)], None)))"
  note a = assms [unfolded get_filtered_ephys_paths_relative_to_record_node_parents_def]
  obtain node where node: "node \<in> set (rglob fs toplevel ''Record Node*'')"
      and y: "(abs_path, rel) \<in> set (fst (?body node))"
    using for_each_yield [OF a] by (elim bexE) (rule that)
  from y obtain sup where sup: "get_superfluous_oebin_paths fs node = Inr sup"
    by (cases "get_superfluous_oebin_paths fs node") auto
  let ?inner = "\<lambda>q. if list_ex (\<lambda>d. d \<in> set (parents q)) (map parent sup) then ([], None)
                else (case relative_to q (parent node) of
                        Inl e \<Rightarrow> ([], Some e)
                      | Inr r \<Rightarrow> ([(q, r)], None))"
  from y sup have "(abs_path, rel) \<in> set (fst (for_each (rglob fs node ''*'') ?inner))"
    by (simp add: Let_def)
  from for_each_yield [OF this]
  obtain q where q: "q \<in> set (rglob fs node ''*'')"
      and yq: "(abs_path, rel) \<in> set (fst (?inner q))"
    by (elim bexE) (rule that)
  have keep: "\<not> list_ex (\<lambda>d. d \<in> set (parents q)) (map parent sup)"
    using yq by (auto split: if_splits)
  have desc: "strict_prefix node q"
    using q by (rule rglob_descendant)
  have "strict_prefix toplevel node"
    using node by (rule rglob_descendant)
  then have ne: "node \<noteq> []"
    by (auto simp: strict_prefix_def)
  obtain r where r: "relative_to q (parent node) = Inr r" "r \<noteq> []" "hd r = path_name node"
      "parent node @ r = q"
    using relative_to_parent [OF desc ne] by blast
  have eq: "abs_path = q" "rel = r"
    using yq keep r(1) by simp_all
  have "\<forall>s\<in>set sup. \<not> strict_prefix (parent s) q"
    using keep by (auto simp: list_ex_iff set_parents)
  moreover have "glob_match ''Record Node*'' (path_name node)"
    using node by (rule rglob_name)
  ultimately show ?thesis
    using node sup desc r eq by (intro bexI [of _ node] exI [of _ sup]) simp_all
qed

lemma example_session_nodes:
  "rglob example_session [''data''] ''Record Node*'' = [example_node]"
  by (simp add: rglob_def is_dir_def example_session_def example_node_def example_rec1_def
        example_rec2_def path_name_def)

theorem kept_paths_anchored_witness:
  "(example_rec2 @ [''structure.oebin''],
    [''Record Node 102'', ''experiment1'', ''recording2'', ''structure.oebin''])
     \<in> set (fst (get_filtered_ephys_paths_relative_to_record_node_parents example_session [''data'']))
   \<and> relative_to (example_rec2 @ [''structure.oebin'']) (parent example_node)
         = Inr [''Record Node 102'', ''experiment1'', ''recording2'', ''structure.oebin'']
   \<and> path_name example_node = ''Record Node 102''
   \<and> get_superfluous_oebin_paths example_session example_node
         = Inr [example_rec1 @ [''structure.oebin'']]
   \<and> \<not> strict_prefix (parent (example_rec1 @ [''structure.oebin'']))
          (example_rec2 @ [''structure.oebin''])"
proof -
  let ?a = "example_rec2 @ [''structure.oebin'']"
  let ?r = "[''Record Node 102'', ''experiment1'', ''recording2'', ''structure.oebin'']"
  have m: "(?a, ?r) \<in>
      set (fst (get_filtered_ephys_paths_relative_to_record_node_parents example_session [''data'']))"
    by code_simp
  from kept_paths_anchored [OF m, unfolded example_session_nodes]
  obtain superfluous where s: "get_superfluous_oebin_paths example_session example_node = Inr superfluous"
      and r: "relative_to ?a (parent example_node) = Inr ?r"
      and h: "hd ?r = path_name example_node"
      and k: "\<forall>s\<in>set superfluous. \<not> strict_prefix (parent s) ?a"
    by (simp only: list.set bex_simps) blast
  have sup: "get_superfluous_oebin_paths example_session example_node
               = Inr [example_rec1 @ [''structure.oebin'']]"
    by code_simp
  then have "\<not> strict_prefix (parent (example_rec1 @ [''structure.oebin''])) ?a"
    using s k by simp
  then show ?thesis
    using m r h sup by simp
qed

section \<open>Properties of the search for recording roots\<close>

lemma collect_roots_distinct:
  "collect_roots files acc = Inr roots \<Longrightarrow> distinct acc \<Longrightarrow> distinct roots"
proof (induction files arbitrary: acc)
  case Nil
  then show ?case by simp
next
  case (Cons f files)
  show ?case
  proof (cases "list_ex (\<lambda>k. contains (lower (as_posix f)) k) [''sorted'', ''extracted'', ''curated'']")
    case True
    with Cons.prems(1) have "collect_roots files acc = Inr roots" by simp
    then show ?thesis using Cons.prems(2) by (rule Cons.IH)
  next
    case False
    with Cons.prems(1) obtain r where "get_ephys_root f = Inr r"
        and c: "collect_roots files (List.insert r acc) = Inr roots"
      by (cases "get_ephys_root f") simp_all
    have "distinct (List.insert r acc)" using Cons.prems(2) by simp
    with c show ?thesis by (rule Cons.IH)
  qed
qed

lemma collect_roots_none:
  "filter (\<lambda>f. \<not> list_ex (\<lambda>k. contains (lower (as_posix f)) k) [''sorted'', ''extracted'', ''curated'']) files = []
   \<Longrightarrow> collect_roots files acc = Inr acc"
proof (induction files)
  case Nil
  then show ?case by simp
next
  case (Cons f files)
  then show ?case by (auto split: if_splits)
qed

text \<open>
  Claim C10. What \<open>get_raw_ephys_subfolders\<close> returns has no duplicates and is sorted
  by the path string; with a \<open>min_size_gb\<close>, every returned root has a total size
  strictly below \<open>min_size_gb * 1024**3\<close> bytes (the threshold keeps the folders below
  it); and when no \<open>continuous.dat\<close> outside sorted, extracted or curated folders is
  found, the result is the empty tuple and not an exception.
\<close>

theorem get_raw_ephys_subfolders_sorted:
  "(get_raw_ephys_subfolders fs path min_size_gb = Inr roots \<longrightarrow>
      distinct roots \<and> sorted (map as_posix roots)
      \<and> (\<forall>g. min_size_gb = Some g \<longrightarrow>
            (\<forall>d\<in>set roots. of_nat (get_size fs d) < g * 1024 ^ 3)))
   \<and> (filter (\<lambda>f. \<not> list_ex (\<lambda>k. contains (lower (as_posix f)) k)
                          [''sorted'', ''extracted'', ''curated''])
              (rglob fs path ''continuous.dat'') = [] \<longrightarrow>
        get_raw_ephys_subfolders fs path min_size_gb = Inr [])"
proof (rule conjI; rule impI)
  assume r: "get_raw_ephys_subfolders fs path min_size_gb = Inr roots"
  then obtain subfolders where c: "collect_roots (rglob fs path ''continuous.dat'') [] = Inr subfolders"
    by (cases "collect_roots (rglob fs path ''continuous.dat'') []")
       (simp_all add: get_raw_ephys_subfolders_def)
  have d: "distinct subfolders"
    using c by (rule collect_roots_distinct) simp
  show "distinct roots \<and> sorted (map as_posix roots)
      \<and> (\<forall>g. min_size_gb = Some g \<longrightarrow>
            (\<forall>d\<in>set roots. of_nat (get_size fs d) < g * 1024 ^ 3))"
  proof (cases min_size_gb)
    case None
    with r c have "roots = sort_key as_posix subfolders"
      by (simp add: get_raw_ephys_subfolders_def)
    then show ?thesis using d None by simp
  next
    case (Some g)
    with r c have "roots = sort_key as_posix
        (filter (\<lambda>d. of_nat (get_size fs d) < g * 1024 ^ 3) subfolders)"
      by (simp add: get_raw_ephys_subfolders_def)
    then show ?thesis using d Some by simp
  qed
next
  assume "filter (\<lambda>f. \<not> list_ex (\<lambda>k. contains (lower (as_posix f)) k)
                          [''sorted'', ''extracted'', ''curated''])
              (rglob fs path ''continuous.dat'') = []"
  then have "collect_roots (rglob fs path ''continuous.dat'') [] = Inr []"
    by (rule collect_roots_none)
  then show "get_raw_ephys_subfolders fs path min_size_gb = Inr []"
    by (cases min_size_gb) (simp_all add: get_raw_ephys_subfolders_def)
qed

theorem get_raw_ephys_subfolders_sorted_witness:
  "get_raw_ephys_subfolders example_session [''data''] (Some 1) = Inr [[''data'']]
   \<and> of_nat (get_size example_session [''data'']) < (1::rat) * 1024 ^ 3
   \<and> sorted (map as_posix [[''data'']])
   \<and> rglob example_session example_rec1 ''continuous.dat'' = []
   \<and> get_raw_ephys_subfolders example_session example_rec1 (Some 1) = Inr []"
proof -
  have r: "get_raw_ephys_subfolders example_session [''data''] (Some 1) = Inr [[''data'']]"
    by (simp add: get_raw_ephys_subfolders_def rglob_def is_dir_def example_session_def
          example_node_def example_rec1_def example_rec2_def path_name_def as_posix_def lower_def
          lower_char_def get_ephys_root_def parents_def parent_def get_size_def)
  note a = get_raw_ephys_subfolders_sorted
      [of example_session "[''data'']" "Some 1" "[[''data'']]", THEN conjunct1, THEN mp, OF r]
  have e: "rglob example_session example_rec1 ''continuous.dat'' = []"
    by (simp add: rglob_def is_dir_def example_session_def example_node_def example_rec1_def
          example_rec2_def path_name_def)
  then have "filter (\<lambda>f. \<not> list_ex (\<lambda>k. contains (lower (as_posix f)) k)
                          [''sorted'', ''extracted'', ''curated''])
              (rglob example_session example_rec1 ''continuous.dat'') = []"
    by simp
  note b = get_raw_ephys_subfolders_sorted
      [of example_session example_rec1 "Some 1" "[]", THEN conjunct2, THEN mp, OF this]
  show ?thesis
    using r a b e by simp
qed

section \<open>Properties of the parsing of the acquisition log\<close>

lemma contains_iff: "contains s sub \<longleftrightarrow> (\<exists>u v. s = u @ sub @ v)"
proof (induction s)
  case Nil
  then show ?case by auto
next
  case (Cons c cs)
  show ?case
  proof
    assume "contains (c # cs) sub"
    then have "prefix sub (c # cs) \<or> contains cs sub" by simp
    then show "\<exists>u v. c # cs = u @ sub @ v"
    proof
      assume "prefix sub (c # cs)"
      then obtain v where "c # cs = sub @ v" by (auto simp: prefix_def)
      then have "c # cs = [] @ sub @ v" by simp
      then show ?thesis by blast
    next
      assume "contains cs sub"
      then obtain u v where "cs = u @ sub @ v" using Cons.IH by blast
      then have "c # cs = (c # u) @ sub @ v" by simp
      then show ?thesis by blast
    qed
  next
    assume "\<exists>u v. c # cs = u @ sub @ v"
    then obtain u v where e: "c # cs = u @ sub @ v" by blast
    show "contains (c # cs) sub"
    proof (cases u)
      case Nil
      with e have "prefix sub (c # cs)" by (simp add: prefix_def)
      then show ?thesis by simp
    next
      case (Cons x u')
      with e have "cs = u' @ sub @ v" by simp
      then have "contains cs sub" using Cons.IH by blast
      then show ?thesis by simp
    qed
  qed
qed


lemma contains_Cons: "contains (c # cs) sub \<longleftrightarrow> prefix sub (c # cs) \<or> contains cs sub"
  by simp



lemma py_split_not_Nil [simp]: "py_split sep s \<noteq> []"
  by (induction sep s rule: py_split.induct) (auto split: list.splits)





lemma contains_append_left: "contains u sub \<Longrightarrow> contains (u @ w) sub"
  by (auto simp: contains_iff) (metis append.assoc)














































section \<open>Properties of the timing on the acquisition clock\<close>












section \<open>Properties of the merge of manifests\<close>

lemma dict_get_set: "dict_get (dict_set d k v) k' = (if k' = k then Some v else dict_get d k')"
  by (induction d) (auto simp: dict_get_def)

lemma dict_set_twice: "dict_set (dict_set d k v) k w = dict_set d k w"
  by (induction d) auto

lemma dict_set_fresh: "k \<notin> set (map fst d) \<Longrightarrow> dict_set d k v = d @ [(k, v)]"
  by (induction d) auto

lemma dict_set_keys: "set (map fst (dict_set d k v)) = insert k (set (map fst d))"
proof (induction d)
  case Nil
  then show ?case by simp
next
  case (Cons p d)
  obtain k' v' where p: "p = (k', v')" by (cases p)
  show ?case
  proof (cases "k' = k")
    case True
    then show ?thesis using p by auto
  next
    case False
    then have "set (map fst (dict_set (p # d) k v)) = insert k' (set (map fst (dict_set d k v)))"
      using p by simp
    then show ?thesis using Cons.IH p by auto
  qed
qed

lemma dict_set_distinct: "distinct (map fst d) \<Longrightarrow> distinct (map fst (dict_set d k v))"
proof (induction d)
  case Nil
  then show ?case by simp
next
  case (Cons p d)
  obtain k' v' where p: "p = (k', v')" by (cases p)
  show ?case
  proof (cases "k' = k")
    case True
    then show ?thesis using Cons.prems p by simp
  next
    case False
    have "k' \<notin> set (map fst (dict_set d k v))"
      using Cons.prems p False by (simp only: dict_set_keys) simp
    then show ?thesis using Cons p False by simp
  qed
qed

lemma dict_set_entries: "set (dict_set d k v) \<subseteq> insert (k, v) (set d)"
  by (induction d) (auto split: if_splits)

lemma dict_set_not_Nil [simp]: "dict_set d k v \<noteq> []"
  by (cases d) (auto split: if_splits)

lemma dict_get_entry: "dict_get d k = Some v \<Longrightarrow> (k, v) \<in> set d"
  by (simp add: dict_get_def map_of_SomeD)

lemma get_or_empty_set:
  "get_or_empty (dict_set d k v) k' = (if k' = k then v else get_or_empty d k')"
  by (simp add: get_or_empty_def dict_get_set)

lemma merge_items_additions:
  "merge_items fmt excl key items m =
     (if additions fmt excl (get_or_empty m key) items = [] then m
      else dict_set m key (get_or_empty m key @ additions fmt excl (get_or_empty m key) items))"
proof (induction items arbitrary: m)
  case Nil
  then show ?case by simp
next
  case (Cons x items)
  let ?cur = "get_or_empty m key"
  show ?case
  proof (cases "x \<in> set ?cur \<or> in_excl_list fmt excl x")
    case True
    then show ?thesis using Cons.IH [of m] by auto
  next
    case False
    let ?m' = "dict_set m key (?cur @ [x])"
    have cur': "get_or_empty ?m' key = ?cur @ [x]"
      by (simp add: get_or_empty_set)
    have "merge_items fmt excl key (x # items) m = merge_items fmt excl key items ?m'"
      using False by simp
    also have "\<dots> = (if additions fmt excl (?cur @ [x]) items = [] then ?m'
                     else dict_set ?m' key ((?cur @ [x]) @ additions fmt excl (?cur @ [x]) items))"
      using Cons.IH [of ?m'] by (simp only: cur')
    also have "\<dots> = dict_set m key (?cur @ x # additions fmt excl (?cur @ [x]) items)"
      by (simp add: dict_set_twice)
    finally show ?thesis using False by simp
  qed
qed

lemma additions_distinct:
  "distinct cur \<Longrightarrow> distinct (cur @ additions fmt excl cur items)"
proof (induction items arbitrary: cur)
  case Nil
  then show ?case by simp
next
  case (Cons x items)
  show ?case
  proof (cases "x \<in> set cur \<or> in_excl_list fmt excl x")
    case True
    then show ?thesis using Cons by auto
  next
    case False
    then have "distinct (cur @ [x])" using Cons.prems by simp
    then have "distinct ((cur @ [x]) @ additions fmt excl (cur @ [x]) items)"
      by (rule Cons.IH)
    then show ?thesis using False by simp
  qed
qed

lemma additions_kept:
  "x \<in> set (additions fmt excl cur items) \<Longrightarrow> \<not> in_excl_list fmt excl x \<and> x \<in> set items"
proof (induction items arbitrary: cur)
  case Nil
  then show ?case by simp
next
  case (Cons y items)
  then show ?case by (auto split: if_splits)
qed

lemma additions_cover:
  "x \<in> set items \<Longrightarrow> x \<in> set (cur @ additions fmt excl cur items) \<or> in_excl_list fmt excl x"
proof (induction items arbitrary: cur)
  case Nil
  then show ?case by simp
next
  case (Cons y items)
  show ?case
  proof (cases "y \<in> set cur \<or> in_excl_list fmt excl y")
    case True
    then show ?thesis using Cons by auto
  next
    case False
    show ?thesis
    proof (cases "x = y")
      case True
      then show ?thesis using False by simp
    next
      case ne: False
      then have "x \<in> set items" using Cons.prems by simp
      from Cons.IH [OF this, of "cur @ [y]"] show ?thesis using False by auto
    qed
  qed
qed

lemma additions_none:
  "\<forall>x\<in>set items. x \<in> set cur \<or> in_excl_list fmt excl x \<Longrightarrow> additions fmt excl cur items = []"
  by (induction items) auto

lemma additions_all:
  "distinct items \<Longrightarrow> set items \<inter> set cur = {} \<Longrightarrow>
   \<forall>x\<in>set items. \<not> in_excl_list fmt excl x \<Longrightarrow> additions fmt excl cur items = items"
proof (induction items arbitrary: cur)
  case Nil
  then show ?case by simp
next
  case (Cons x items)
  have "additions fmt excl (cur @ [x]) items = items"
    using Cons.prems by (intro Cons.IH) auto
  then show ?case using Cons.prems by auto
qed

lemma merged_ok_entry:
  "merged_ok fmt excl m \<Longrightarrow> (k, xs) \<in> set m \<Longrightarrow>
   xs \<noteq> [] \<and> distinct xs \<and> (\<forall>x\<in>set xs. \<not> in_excl_list fmt excl x)"
  by (auto simp: merged_ok_def list_all_iff)

lemma merged_ok_current:
  assumes "merged_ok fmt excl m"
  shows "distinct (get_or_empty m k) \<and> (\<forall>x\<in>set (get_or_empty m k). \<not> in_excl_list fmt excl x)"
proof (cases "dict_get m k")
  case None
  then show ?thesis by (simp add: get_or_empty_def)
next
  case (Some xs)
  then have "(k, xs) \<in> set m" by (rule dict_get_entry)
  then show ?thesis
    using merged_ok_entry [OF assms] Some by (simp add: get_or_empty_def)
qed

lemma merged_ok_set:
  assumes "merged_ok fmt excl m" and "xs \<noteq> []" and "distinct xs"
    and "\<forall>x\<in>set xs. \<not> in_excl_list fmt excl x"
  shows "merged_ok fmt excl (dict_set m k xs)"
proof -
  have "distinct (map fst (dict_set m k xs))"
    using assms(1) by (simp add: merged_ok_def dict_set_distinct)
  moreover have "\<forall>(k', ys)\<in>set (dict_set m k xs).
      ys \<noteq> [] \<and> distinct ys \<and> (\<forall>x\<in>set ys. \<not> in_excl_list fmt excl x)"
  proof (clarify)
    fix k' ys assume "(k', ys) \<in> set (dict_set m k xs)"
    then have "(k', ys) = (k, xs) \<or> (k', ys) \<in> set m"
      using dict_set_entries [of m k xs] by auto
    then show "ys \<noteq> [] \<and> distinct ys \<and> (\<forall>x\<in>set ys. \<not> in_excl_list fmt excl x)"
      using assms merged_ok_entry [OF assms(1)] by auto
  qed
  ultimately show ?thesis
    by (auto simp: merged_ok_def list_all_iff)
qed

lemma merge_items_ok:
  assumes "merged_ok fmt excl m"
  shows "merged_ok fmt excl (merge_items fmt excl key items m)"
proof -
  let ?cur = "get_or_empty m key"
  let ?add = "additions fmt excl ?cur items"
  show ?thesis
  proof (cases "?add = []")
    case True
    then show ?thesis using assms by (simp add: merge_items_additions)
  next
    case False
    have "distinct (?cur @ ?add)"
      using merged_ok_current [OF assms] by (intro additions_distinct) simp
    moreover have "\<forall>x\<in>set (?cur @ ?add). \<not> in_excl_list fmt excl x"
      using merged_ok_current [OF assms, of key] additions_kept [of _ fmt excl ?cur items] by auto
    moreover have "?cur @ ?add \<noteq> []"
      using False by simp
    ultimately have "merged_ok fmt excl (dict_set m key (?cur @ ?add))"
      using assms by (intro merged_ok_set)
    then show ?thesis using False by (simp add: merge_items_additions)
  qed
qed

lemma merge_keys_ok:
  "merged_ok fmt excl m \<Longrightarrow> merged_ok fmt excl (merge_keys fmt excl d m)"
proof (induction d arbitrary: m)
  case Nil
  then show ?case by simp
next
  case (Cons p d)
  obtain k v where p: "p = (k, v)" by (cases p)
  show ?case
  proof (cases v)
    case (JList items)
    have "merged_ok fmt excl (merge_items fmt excl k items m)"
      using Cons.prems by (rule merge_items_ok)
    then show ?thesis
      using Cons p JList by simp
  next
    case (JOther s)
    then show ?thesis using Cons p by simp
  qed
qed

lemma merge_files_ok:
  "merged_ok fmt excl m \<Longrightarrow> merge_files fmt fs excl ps m = Inr m' \<Longrightarrow> merged_ok fmt excl m'"
proof (induction ps arbitrary: m)
  case Nil
  then show ?case by simp
next
  case (Cons p ps)
  from Cons.prems(2) obtain d where d: "get_oebin_data fmt fs p = Inr d"
      and r: "merge_files fmt fs excl ps (merge_keys fmt excl d m) = Inr m'"
    by (cases "get_oebin_data fmt fs p") simp_all
  have "merged_ok fmt excl (merge_keys fmt excl d m)"
    using Cons.prems(1) by (rule merge_keys_ok)
  then show ?case using r by (rule Cons.IH)
qed

lemma merge_items_grows:
  "set (get_or_empty m k) \<subseteq> set (get_or_empty (merge_items fmt excl key items m) k)"
  by (auto simp: merge_items_additions get_or_empty_set)

lemma merge_keys_grows:
  "set (get_or_empty m k) \<subseteq> set (get_or_empty (merge_keys fmt excl d m) k)"
proof (induction d arbitrary: m)
  case Nil
  then show ?case by simp
next
  case (Cons p d)
  obtain k' v where p: "p = (k', v)" by (cases p)
  show ?case
  proof (cases v)
    case (JList items)
    have "set (get_or_empty m k) \<subseteq> set (get_or_empty (merge_items fmt excl k' items m) k)"
      by (rule merge_items_grows)
    also have "\<dots> \<subseteq> set (get_or_empty (merge_keys fmt excl d (merge_items fmt excl k' items m)) k)"
      by (rule Cons.IH)
    finally show ?thesis
      using Cons.IH [of m] p JList by simp
  next
    case (JOther s)
    then show ?thesis using Cons.IH [of m] p by simp
  qed
qed

lemma covered_iff:
  "covered fmt excl d m \<longleftrightarrow>
     (\<forall>k xs x. (k, JList xs) \<in> set d \<and> x \<in> set xs \<longrightarrow>
        x \<in> set (get_or_empty m k) \<or> in_excl_list fmt excl x)"
proof
  assume c: "covered fmt excl d m"
  show "\<forall>k xs x. (k, JList xs) \<in> set d \<and> x \<in> set xs \<longrightarrow>
        x \<in> set (get_or_empty m k) \<or> in_excl_list fmt excl x"
  proof (intro allI impI)
    fix k xs x assume a: "(k, JList xs) \<in> set d \<and> x \<in> set xs"
    then have "case (k, JList xs) of (k, v) \<Rightarrow> (case v of
                 JList xs \<Rightarrow> list_all (\<lambda>x. x \<in> set (get_or_empty m k) \<or> in_excl_list fmt excl x) xs
               | JOther _ \<Rightarrow> True)"
      using c unfolding covered_def list_all_iff by blast
    then show "x \<in> set (get_or_empty m k) \<or> in_excl_list fmt excl x"
      using a by (simp add: list_all_iff)
  qed
next
  assume a: "\<forall>k xs x. (k, JList xs) \<in> set d \<and> x \<in> set xs \<longrightarrow>
        x \<in> set (get_or_empty m k) \<or> in_excl_list fmt excl x"
  show "covered fmt excl d m"
    unfolding covered_def list_all_iff
  proof
    fix p assume p: "p \<in> set d"
    obtain k v where kv: "p = (k, v)" by (cases p)
    show "case p of (k, v) \<Rightarrow> (case v of
            JList xs \<Rightarrow> \<forall>x\<in>set xs. x \<in> set (get_or_empty m k) \<or> in_excl_list fmt excl x
          | JOther _ \<Rightarrow> True)"
    proof (cases v)
      case (JList xs)
      then show ?thesis using a p kv by auto
    next
      case (JOther s)
      then show ?thesis using kv by simp
    qed
  qed
qed

lemma covered_grows:
  assumes "covered fmt excl d m" and "\<And>k. set (get_or_empty m k) \<subseteq> set (get_or_empty m' k)"
  shows "covered fmt excl d m'"
  unfolding covered_iff
proof (intro allI impI)
  fix k xs x assume a: "(k, JList xs) \<in> set d \<and> x \<in> set xs"
  then have "x \<in> set (get_or_empty m k) \<or> in_excl_list fmt excl x"
    using assms(1) unfolding covered_iff by blast
  then show "x \<in> set (get_or_empty m' k) \<or> in_excl_list fmt excl x"
    using assms(2) [of k] by auto
qed

lemma covered_fixed: "covered fmt excl d m \<Longrightarrow> merge_keys fmt excl d m = m"
proof (induction d)
  case Nil
  then show ?case by simp
next
  case (Cons p d)
  obtain k v where p: "p = (k, v)" by (cases p)
  have rest: "merge_keys fmt excl d m = m"
    using Cons by (simp add: covered_def)
  show ?case
  proof (cases v)
    case (JList items)
    have "\<forall>x\<in>set items. x \<in> set (get_or_empty m k) \<or> in_excl_list fmt excl x"
      using Cons.prems p JList by (simp add: covered_def list_all_iff)
    then have "additions fmt excl (get_or_empty m k) items = []"
      by (rule additions_none)
    then have "merge_items fmt excl k items m = m"
      by (simp add: merge_items_additions)
    then show ?thesis using rest p JList by simp
  next
    case (JOther s)
    then show ?thesis using rest p by simp
  qed
qed

lemma merge_keys_covers: "covered fmt excl d (merge_keys fmt excl d m)"
proof (induction d arbitrary: m)
  case Nil
  then show ?case by (simp add: covered_def)
next
  case (Cons p d)
  obtain k v where p: "p = (k, v)" by (cases p)
  define m1 where "m1 = (if map_option JList (dict_get m k) = Some v then m
                         else case v of JList items \<Rightarrow> merge_items fmt excl k items m | JOther _ \<Rightarrow> m)"
  have step: "merge_keys fmt excl (p # d) m = merge_keys fmt excl d m1"
    by (cases v) (simp_all add: p m1_def)
  have first: "covered fmt excl [(k, v)] m1"
  proof (cases v)
    case (JList items)
    show ?thesis
    proof (cases "map_option JList (dict_get m k) = Some v")
      case True
      then have "get_or_empty m k = items"
        using JList by (auto simp: get_or_empty_def)
      then show ?thesis
        using True JList by (simp add: covered_def m1_def list_all_iff)
    next
      case False
      let ?cur = "get_or_empty m k"
      have "get_or_empty (merge_items fmt excl k items m) k = ?cur @ additions fmt excl ?cur items"
        by (simp add: merge_items_additions get_or_empty_set)
      then show ?thesis
        using False JList additions_cover [of _ items ?cur fmt excl]
        by (simp add: covered_def m1_def list_all_iff)
    qed
  next
    case (JOther s)
    then show ?thesis by (simp add: covered_def)
  qed
  have "covered fmt excl [(k, v)] (merge_keys fmt excl d m1)"
    using first merge_keys_grows by (rule covered_grows)
  moreover have "covered fmt excl d (merge_keys fmt excl d m1)"
    by (rule Cons.IH)
  ultimately have "covered fmt excl (p # d) (merge_keys fmt excl d m1)"
    by (simp add: p covered_def)
  then show ?case
    by (simp only: step)
qed

lemma merge_files_copies:
  assumes "\<forall>p\<in>set ps. get_oebin_data fmt fs p = Inr d" and "covered fmt excl d m"
  shows "merge_files fmt fs excl ps m = Inr m"
  using assms(1)
proof (induction ps)
  case Nil
  then show ?case by simp
next
  case (Cons p ps)
  then show ?case using covered_fixed [OF assms(2)] by simp
qed

lemma merge_files_identical:
  assumes "\<forall>p\<in>set ps. get_oebin_data fmt fs p = Inr d" and "ps \<noteq> []"
  shows "merge_files fmt fs excl ps [] = Inr (merge_keys fmt excl d [])"
proof -
  obtain p rest where ps: "ps = p # rest" using assms(2) by (cases ps) auto
  have "merge_files fmt fs excl rest (merge_keys fmt excl d []) = Inr (merge_keys fmt excl d [])"
    using assms(1) ps merge_keys_covers by (intro merge_files_copies) auto
  then show ?thesis using assms(1) ps by simp
qed

end
